theory Spec2Isabelle
  imports Complex_Main
begin

section \<open>Python values\<close>

text \<open>
  The program is dynamically typed: a raw description is whatever the YAML reader
  returns, and the frozen dataclasses store what they are given without looking at
  their annotations. Values are therefore one datatype. A \<open>float\<close> is an exact
  rational: rounding error, infinities, NaN and the sign of zero are not represented.
  A \<open>dict\<close> is an association list read with \<open>map_of\<close>.
\<close>

datatype pyval =
    PNone
  | PBool bool
  | PInt int
  | PFloat rat
  | PStr string
  | PList "pyval list"
  | PDict "(pyval \<times> pyval) list"

datatype error =
    KeyError string
  | ContractNotRespected
  | TypeError
  | ValueError


text \<open>The number a value stands for in arithmetic: \<open>int\<close>, \<open>float\<close> and \<open>bool\<close> only.\<close>

fun as_num :: "pyval \<Rightarrow> rat option" where
  "as_num (PInt i) = Some (of_int i)"
| "as_num (PFloat r) = Some r"
| "as_num (PBool b) = Some (if b then 1 else 0)"
| "as_num v = None"

text \<open>
  \<open>float(x)\<close>. On a \<open>str\<close> the builtin parses the text; that parser is not part of
  the program and is the parameter \<open>str_float\<close> (\<open>None\<close>: the text is no number).
\<close>

fun py_float :: "(string \<Rightarrow> rat option) \<Rightarrow> pyval \<Rightarrow> error + rat" where
  "py_float str_float (PStr s) =
     (case str_float s of None \<Rightarrow> Inl ValueError | Some r \<Rightarrow> Inr r)"
| "py_float str_float v =
     (case as_num v of None \<Rightarrow> Inl TypeError | Some r \<Rightarrow> Inr r)"

text \<open>
  \<open>range(x)\<close>, as the number of iterations it gives: an \<open>int\<close> (or \<open>bool\<close>) is
  accepted, a count below one gives none, anything else is a \<open>TypeError\<close>.
\<close>

fun py_range :: "pyval \<Rightarrow> error + nat" where
  "py_range (PInt n) = Inr (nat n)"
| "py_range (PBool b) = Inr (if b then 1 else 0)"
| "py_range v = Inl TypeError"

subsection \<open>Text\<close>








section \<open>Data classes\<close>

record WorkingSet =
  percent :: pyval
  reps :: pyval
  amrap :: pyval

record Session =
  name :: pyval
  sets :: "WorkingSet list"

record MicroCycle =
  name :: pyval
  sessions :: "Session list"

record MesoCycle =
  name :: pyval
  micros :: "MicroCycle list"
  tm_inc :: pyval

record Program =
  name :: pyval
  mesos :: "MesoCycle list"

section \<open>Rounding and weights\<close>

text \<open>
  The arguments \<open>tm\<close> and \<open>rounding\<close> are \<open>Optional[Numeric]\<close>: \<open>None\<close> or a number.
  Both are tested for truth, so that a number equal to zero goes the way of \<open>None\<close>.
  \<open>x // y\<close> on floats is the floor of the quotient.
\<close>

definition mround :: "rat \<Rightarrow> rat option \<Rightarrow> rat" where
  "mround val rounding =
     (let rounding' = (case rounding of None \<Rightarrow> 5 | Some r \<Rightarrow> if r = 0 then 5 else r)
      in of_int \<lfloor>val / rounding'\<rfloor> * rounding')"

definition calculate_weight :: "WorkingSet \<Rightarrow> rat option \<Rightarrow> rat option \<Rightarrow> error + pyval" where
  "calculate_weight self tm rounding =
     (case tm of
        None \<Rightarrow> Inr (percent self)
      | Some t \<Rightarrow>
          if t = 0 then Inr (percent self)
          else (case as_num (percent self) of
                  None \<Rightarrow> Inl TypeError
                | Some p \<Rightarrow> Inr (PFloat (mround (t * p) rounding))))"


definition effective_tm ::
    "(string \<Rightarrow> rat option) \<Rightarrow> MesoCycle \<Rightarrow> rat option \<Rightarrow> error + rat option" where
  "effective_tm str_float self tm =
     (case tm of
        None \<Rightarrow> Inr None
      | Some t \<Rightarrow>
          if t = 0 then Inr None
          else (case py_float str_float (tm_inc self) of
                  Inl e \<Rightarrow> Inl e
                | Inr inc \<Rightarrow> Inr (Some (t + inc))))"

section \<open>Contracts and mappings\<close>

text \<open>
  The contract \<open>map(str: *)\<close> accepts a mapping whose keys are all strings, and
  \<open>seq(map(str: *))\<close>, registered as \<open>program_data\<close>, a sequence of such mappings.
  A \<open>str\<close> is a sequence of one-character strings, so the empty string is the only
  one that passes. The loader checks \<open>map(str: str|program_data)\<close>.
\<close>

fun is_str :: "pyval \<Rightarrow> bool" where
  "is_str (PStr s) = True"
| "is_str v = False"

definition str_keys :: "(pyval \<times> pyval) list \<Rightarrow> bool" where
  "str_keys kvs = list_all (\<lambda>kv. is_str (fst kv)) kvs"

fun str_map :: "pyval \<Rightarrow> bool" where
  "str_map (PDict kvs) = str_keys kvs"
| "str_map v = False"

fun program_data :: "pyval \<Rightarrow> bool" where
  "program_data (PList xs) = list_all str_map xs"
| "program_data (PStr s) = (s = [])"
| "program_data v = False"

fun check_program :: "pyval \<Rightarrow> bool" where
  "check_program (PDict kvs) =
     (str_keys kvs \<and> list_all (\<lambda>kv. is_str (snd kv) \<or> program_data (snd kv)) kvs)"
| "check_program v = False"

text \<open>The items a \<open>for\<close> loop visits.\<close>

fun elements :: "pyval \<Rightarrow> pyval list" where
  "elements (PList xs) = xs"
| "elements (PStr s) = map (\<lambda>c. PStr [c]) s"
| "elements v = []"

text \<open>\<open>d[k]\<close> and \<open>d.get(k, dflt)\<close> for a string key.\<close>

definition py_getitem :: "(pyval \<times> pyval) list \<Rightarrow> string \<Rightarrow> error + pyval" where
  "py_getitem d k = (case map_of d (PStr k) of None \<Rightarrow> Inl (KeyError k) | Some v \<Rightarrow> Inr v)"

definition py_get :: "(pyval \<times> pyval) list \<Rightarrow> string \<Rightarrow> pyval \<Rightarrow> pyval" where
  "py_get d k dflt = (case map_of d (PStr k) of None \<Rightarrow> dflt | Some v \<Rightarrow> v)"

section \<open>Generation\<close>

text \<open>
  Each generator is consumed at once by a list comprehension, so what the caller sees
  is the whole list or the first exception. \<open>collect\<close> runs a loop body over the items
  in order and stops at the first failure.
\<close>

fun collect :: "('a \<Rightarrow> error + 'b) \<Rightarrow> 'a list \<Rightarrow> error + 'b list" where
  "collect f [] = Inr []"
| "collect f (x # xs) =
     (case f x of
        Inl e \<Rightarrow> Inl e
      | Inr y \<Rightarrow> (case collect f xs of Inl e \<Rightarrow> Inl e | Inr ys \<Rightarrow> Inr (y # ys)))"

text \<open>
  The body of the loop of \<open>generate_workingsets\<close>: the keyword arguments are evaluated
  in the order \<open>amrap\<close>, \<open>percent\<close>, \<open>reps\<close>, then \<open>range\<close> decides how often the one
  value is yielded. The contract has admitted mappings only; the last equation is
  never reached.
\<close>

fun workingset_entries :: "pyval \<Rightarrow> error + WorkingSet list" where
  "workingset_entries (PDict ws) =
     (let a = py_get ws ''amrap'' (PBool False)
      in case py_getitem ws ''percent'' of
           Inl e \<Rightarrow> Inl e
         | Inr p \<Rightarrow>
             (case py_getitem ws ''reps'' of
                Inl e \<Rightarrow> Inl e
              | Inr r \<Rightarrow>
                  (let workingset = \<lparr>percent = p, reps = r, amrap = a\<rparr>
                   in case py_range (py_get ws ''sets'' (PInt 1)) of
                        Inl e \<Rightarrow> Inl e
                      | Inr n \<Rightarrow> Inr (replicate n workingset))))"
| "workingset_entries v = Inl TypeError"

definition generate_workingsets :: "pyval \<Rightarrow> error + WorkingSet list" where
  "generate_workingsets raw =
     (if program_data raw
      then (case collect workingset_entries (elements raw) of
              Inl e \<Rightarrow> Inl e
            | Inr yielded \<Rightarrow> Inr (concat yielded))
      else Inl ContractNotRespected)"

text \<open>
  The bodies of the loops of \<open>generate_sessions\<close>, \<open>generate_micros\<close> and
  \<open>generate_mesos\<close> build one entity from one mapping: the nested list is generated
  first and the name is looked up afterwards, as the statements stand in the source.
  Here too the contract has admitted mappings only.
\<close>

fun generate_session :: "pyval \<Rightarrow> error + Session" where
  "generate_session (PDict session) =
     (case py_getitem session ''sets'' of
        Inl e \<Rightarrow> Inl e
      | Inr raw \<Rightarrow>
          (case generate_workingsets raw of
             Inl e \<Rightarrow> Inl e
           | Inr workingsets \<Rightarrow>
               (case py_getitem session ''name'' of
                  Inl e \<Rightarrow> Inl e
                | Inr n \<Rightarrow> Inr \<lparr>Session.name = n, sets = workingsets\<rparr>)))"
| "generate_session v = Inl TypeError"

definition generate_sessions :: "pyval \<Rightarrow> error + Session list" where
  "generate_sessions raw =
     (if program_data raw then collect generate_session (elements raw)
      else Inl ContractNotRespected)"

fun generate_micro :: "pyval \<Rightarrow> error + MicroCycle" where
  "generate_micro (PDict micro) =
     (case py_getitem micro ''sessions'' of
        Inl e \<Rightarrow> Inl e
      | Inr raw \<Rightarrow>
          (case generate_sessions raw of
             Inl e \<Rightarrow> Inl e
           | Inr ss \<Rightarrow>
               (case py_getitem micro ''name'' of
                  Inl e \<Rightarrow> Inl e
                | Inr n \<Rightarrow> Inr \<lparr>MicroCycle.name = n, sessions = ss\<rparr>)))"
| "generate_micro v = Inl TypeError"

definition generate_micros :: "pyval \<Rightarrow> error + MicroCycle list" where
  "generate_micros raw =
     (if program_data raw then collect generate_micro (elements raw)
      else Inl ContractNotRespected)"

text \<open>
  \<open>options\<close> keeps the key \<open>tm_inc\<close> alone; without it the dataclass default \<open>0\<close>
  stands.
\<close>

fun generate_meso :: "pyval \<Rightarrow> error + MesoCycle" where
  "generate_meso (PDict meso) =
     (case py_getitem meso ''micros'' of
        Inl e \<Rightarrow> Inl e
      | Inr raw \<Rightarrow>
          (case generate_micros raw of
             Inl e \<Rightarrow> Inl e
           | Inr us \<Rightarrow>
               (let inc = py_get meso ''tm_inc'' (PInt 0)
                in case py_getitem meso ''name'' of
                     Inl e \<Rightarrow> Inl e
                   | Inr n \<Rightarrow> Inr \<lparr>MesoCycle.name = n, micros = us, tm_inc = inc\<rparr>)))"
| "generate_meso v = Inl TypeError"

definition generate_mesos :: "pyval \<Rightarrow> error + MesoCycle list" where
  "generate_mesos raw =
     (if program_data raw then collect generate_meso (elements raw)
      else Inl ContractNotRespected)"

text \<open>
  \<open>load_program\<close> from the document the YAML reader returned (reading the handle is
  the reader's work).
\<close>

fun load_program :: "pyval \<Rightarrow> error + Program" where
  "load_program (PDict program) =
     (if check_program (PDict program)
      then (case py_getitem program ''mesos'' of
              Inl e \<Rightarrow> Inl e
            | Inr raw \<Rightarrow>
                (case generate_mesos raw of
                   Inl e \<Rightarrow> Inl e
                 | Inr ms \<Rightarrow>
                     (case py_getitem program ''name'' of
                        Inl e \<Rightarrow> Inl e
                      | Inr n \<Rightarrow> Inr \<lparr>Program.name = n, mesos = ms\<rparr>)))
      else Inl ContractNotRespected)"
| "load_program v = Inl ContractNotRespected"

section \<open>Raw descriptions\<close>

text \<open>
  What follows is the vocabulary of the properties, not program text: the shape of a
  description, a required field that is missing, the repeat counts of a description,
  and a description without the keys the program does not know.

  The shape of an input document: every mapping has string keys, and a field that is
  present has the type the document shape gives it (\<open>percent\<close> a number, \<open>reps\<close> and
  \<open>sets\<close> integers, \<open>amrap\<close> a boolean, \<open>tm_inc\<close> a number, names strings, the nested
  fields sequences of the next level). With \<open>required = True\<close> the required fields
  must be there: that is a well-formed description. With \<open>required = False\<close> they may
  be missing, and nothing else may be wrong.
\<close>

fun is_number :: "pyval \<Rightarrow> bool" where
  "is_number (PInt i) = True"
| "is_number (PFloat r) = True"
| "is_number v = False"

fun is_int :: "pyval \<Rightarrow> bool" where
  "is_int (PInt i) = True"
| "is_int v = False"

fun is_bool :: "pyval \<Rightarrow> bool" where
  "is_bool (PBool b) = True"
| "is_bool v = False"

definition field_ok ::
    "bool \<Rightarrow> (pyval \<Rightarrow> bool) \<Rightarrow> (pyval \<times> pyval) list \<Rightarrow> string \<Rightarrow> bool" where
  "field_ok required P kvs k =
     (case map_of kvs (PStr k) of None \<Rightarrow> \<not> required | Some v \<Rightarrow> P v)"

fun seq_of :: "(pyval \<Rightarrow> bool) \<Rightarrow> pyval \<Rightarrow> bool" where
  "seq_of P (PList xs) = list_all P xs"
| "seq_of P v = False"

fun shape_raw_set :: "bool \<Rightarrow> pyval \<Rightarrow> bool" where
  "shape_raw_set required (PDict kvs) =
     (str_keys kvs
      \<and> field_ok required is_number kvs ''percent''
      \<and> field_ok required is_int kvs ''reps''
      \<and> field_ok False is_bool kvs ''amrap''
      \<and> field_ok False is_int kvs ''sets'')"
| "shape_raw_set required v = False"

fun shape_session :: "bool \<Rightarrow> pyval \<Rightarrow> bool" where
  "shape_session required (PDict kvs) =
     (str_keys kvs
      \<and> field_ok required is_str kvs ''name''
      \<and> field_ok required (seq_of (shape_raw_set required)) kvs ''sets'')"
| "shape_session required v = False"

fun shape_micro :: "bool \<Rightarrow> pyval \<Rightarrow> bool" where
  "shape_micro required (PDict kvs) =
     (str_keys kvs
      \<and> field_ok required is_str kvs ''name''
      \<and> field_ok required (seq_of (shape_session required)) kvs ''sessions'')"
| "shape_micro required v = False"

fun shape_meso :: "bool \<Rightarrow> pyval \<Rightarrow> bool" where
  "shape_meso required (PDict kvs) =
     (str_keys kvs
      \<and> field_ok required is_str kvs ''name''
      \<and> field_ok required (seq_of (shape_micro required)) kvs ''micros''
      \<and> field_ok False is_number kvs ''tm_inc'')"
| "shape_meso required v = False"

definition shape_mesos :: "bool \<Rightarrow> pyval \<Rightarrow> bool" where
  "shape_mesos required raw = seq_of (shape_meso required) raw"

text \<open>
  At the top level every value, also under a key the program does not read, is a
  string or a sequence of string-keyed mappings.
\<close>

fun shape_program :: "bool \<Rightarrow> pyval \<Rightarrow> bool" where
  "shape_program required (PDict kvs) =
     (str_keys kvs
      \<and> list_all (\<lambda>kv. is_str (snd kv) \<or> program_data (snd kv)) kvs
      \<and> field_ok required is_str kvs ''name''
      \<and> field_ok required (shape_mesos required) kvs ''mesos'')"
| "shape_program required v = False"

subsection \<open>A required field is missing\<close>

definition lacks :: "(pyval \<times> pyval) list \<Rightarrow> string \<Rightarrow> bool" where
  "lacks kvs k = (map_of kvs (PStr k) = None)"

definition missing_below ::
    "(pyval \<Rightarrow> bool) \<Rightarrow> (pyval \<times> pyval) list \<Rightarrow> string \<Rightarrow> bool" where
  "missing_below M kvs k =
     (case map_of kvs (PStr k) of None \<Rightarrow> True | Some v \<Rightarrow> list_ex M (elements v))"

fun missing_in_raw_set :: "pyval \<Rightarrow> bool" where
  "missing_in_raw_set (PDict kvs) = (lacks kvs ''percent'' \<or> lacks kvs ''reps'')"
| "missing_in_raw_set v = False"

fun missing_in_session :: "pyval \<Rightarrow> bool" where
  "missing_in_session (PDict kvs) =
     (lacks kvs ''name'' \<or> missing_below missing_in_raw_set kvs ''sets'')"
| "missing_in_session v = False"

fun missing_in_micro :: "pyval \<Rightarrow> bool" where
  "missing_in_micro (PDict kvs) =
     (lacks kvs ''name'' \<or> missing_below missing_in_session kvs ''sessions'')"
| "missing_in_micro v = False"

fun missing_in_meso :: "pyval \<Rightarrow> bool" where
  "missing_in_meso (PDict kvs) =
     (lacks kvs ''name'' \<or> missing_below missing_in_micro kvs ''micros'')"
| "missing_in_meso v = False"

fun missing_in_program :: "pyval \<Rightarrow> bool" where
  "missing_in_program (PDict kvs) =
     (lacks kvs ''name'' \<or> missing_below missing_in_meso kvs ''mesos'')"
| "missing_in_program v = False"

definition required_fields :: "string list" where
  "required_fields =
     [''name'', ''mesos'', ''micros'', ''sessions'', ''sets'', ''percent'', ''reps'']"

subsection \<open>Repeat counts of a description, working sets of a program\<close>

definition field_items :: "string \<Rightarrow> pyval \<Rightarrow> pyval list" where
  "field_items k v =
     (case v of
        PDict kvs \<Rightarrow> (case map_of kvs (PStr k) of None \<Rightarrow> [] | Some s \<Rightarrow> elements s)
      | _ \<Rightarrow> [])"

definition session_raw_sets :: "pyval \<Rightarrow> pyval list" where
  "session_raw_sets s = field_items ''sets'' s"

definition micro_raw_sets :: "pyval \<Rightarrow> pyval list" where
  "micro_raw_sets u = concat (map session_raw_sets (field_items ''sessions'' u))"

definition meso_raw_sets :: "pyval \<Rightarrow> pyval list" where
  "meso_raw_sets m = concat (map micro_raw_sets (field_items ''micros'' m))"

definition program_raw_sets :: "pyval \<Rightarrow> pyval list" where
  "program_raw_sets d = concat (map meso_raw_sets (field_items ''mesos'' d))"

fun int_of :: "pyval \<Rightarrow> int" where
  "int_of (PInt i) = i"
| "int_of (PBool b) = (if b then 1 else 0)"
| "int_of v = 0"

fun repeat_count :: "pyval \<Rightarrow> int" where
  "repeat_count (PDict kvs) = int_of (py_get kvs ''sets'' (PInt 1))"
| "repeat_count v = 0"

definition count_session :: "Session \<Rightarrow> nat" where
  "count_session s = length (sets s)"

definition count_micro :: "MicroCycle \<Rightarrow> nat" where
  "count_micro u = sum_list (map count_session (sessions u))"

definition count_meso :: "MesoCycle \<Rightarrow> nat" where
  "count_meso m = sum_list (map count_micro (micros m))"

definition count_program :: "Program \<Rightarrow> nat" where
  "count_program p = sum_list (map count_meso (mesos p))"

subsection \<open>A description without its undocumented keys\<close>

definition documented_keys :: "string list" where
  "documented_keys =
     [''name'', ''mesos'', ''micros'', ''sessions'', ''sets'', ''percent'', ''reps'',
      ''amrap'', ''tm_inc'']"

definition strip_keys :: "(pyval \<times> pyval) list \<Rightarrow> (pyval \<times> pyval) list" where
  "strip_keys kvs = filter (\<lambda>kv. fst kv \<in> set (map PStr documented_keys)) kvs"

fun strip_seq :: "(pyval \<Rightarrow> pyval) \<Rightarrow> pyval \<Rightarrow> pyval" where
  "strip_seq f (PList xs) = PList (map f xs)"
| "strip_seq f v = v"

definition strip_field ::
    "string \<Rightarrow> (pyval \<Rightarrow> pyval) \<Rightarrow> (pyval \<times> pyval) list \<Rightarrow> (pyval \<times> pyval) list" where
  "strip_field k f kvs =
     map (\<lambda>kv. if fst kv = PStr k then (fst kv, strip_seq f (snd kv)) else kv) (strip_keys kvs)"

fun strip_raw_set :: "pyval \<Rightarrow> pyval" where
  "strip_raw_set (PDict kvs) = PDict (strip_keys kvs)"
| "strip_raw_set v = v"

fun strip_session :: "pyval \<Rightarrow> pyval" where
  "strip_session (PDict kvs) = PDict (strip_field ''sets'' strip_raw_set kvs)"
| "strip_session v = v"

fun strip_micro :: "pyval \<Rightarrow> pyval" where
  "strip_micro (PDict kvs) = PDict (strip_field ''sessions'' strip_session kvs)"
| "strip_micro v = v"

fun strip_meso :: "pyval \<Rightarrow> pyval" where
  "strip_meso (PDict kvs) = PDict (strip_field ''micros'' strip_micro kvs)"
| "strip_meso v = v"

definition strip_mesos :: "pyval \<Rightarrow> pyval" where
  "strip_mesos raw = strip_seq strip_meso raw"

text \<open>
  What a description is expected to yield: every raw set entry as often as its repeat
  count says, a count below zero counting as none.
\<close>

definition expected_sets :: "pyval list \<Rightarrow> nat" where
  "expected_sets es = sum_list (map (\<lambda>e. nat (repeat_count e)) es)"

subsection \<open>Some descriptions\<close>




definition negative_repeat_program :: pyval where
  "negative_repeat_program =
     PDict [(PStr ''name'', PStr ''P''),
            (PStr ''mesos'', PList [PDict [(PStr ''name'', PStr ''m1''),
              (PStr ''micros'', PList [PDict [(PStr ''name'', PStr ''u1''),
                (PStr ''sessions'', PList [PDict [(PStr ''name'', PStr ''day1''),
                  (PStr ''sets'', PList
                     [PDict [(PStr ''percent'', PFloat (1 / 2)), (PStr ''reps'', PInt 10),
                             (PStr ''sets'', PInt (- 3))],
                      PDict [(PStr ''percent'', PFloat (7 / 10)), (PStr ''reps'', PInt 5)]])]])]])]])]"

text \<open>
  A mesocycle list, and the same list with keys the program does not know added to
  the mesocycle, the microcycle, the session and the raw set.
\<close>

definition plain_mesos :: pyval where
  "plain_mesos =
     PList [PDict [(PStr ''name'', PStr ''m1''), (PStr ''tm_inc'', PInt 5),
       (PStr ''micros'', PList [PDict [(PStr ''name'', PStr ''u1''),
         (PStr ''sessions'', PList [PDict [(PStr ''name'', PStr ''day1''),
           (PStr ''sets'', PList [PDict [(PStr ''percent'', PFloat (1 / 2)),
              (PStr ''reps'', PInt 10), (PStr ''sets'', PInt 2)]])]])]])]]"

definition annotated_mesos :: pyval where
  "annotated_mesos =
     PList [PDict [(PStr ''name'', PStr ''m1''), (PStr ''goal'', PStr ''volume''),
       (PStr ''tm_inc'', PInt 5),
       (PStr ''micros'', PList [PDict [(PStr ''week'', PInt 1), (PStr ''name'', PStr ''u1''),
         (PStr ''sessions'', PList [PDict [(PStr ''name'', PStr ''day1''),
           (PStr ''notes'', PList [PStr ''belt'']),
           (PStr ''sets'', PList [PDict [(PStr ''percent'', PFloat (1 / 2)),
              (PStr ''rpe'', PInt 8), (PStr ''reps'', PInt 10),
              (PStr ''sets'', PInt 2)]])]])]])]]"

section \<open>Properties of weights, rounding and display\<close>







text \<open>
  Claim C2, as the code has it. \<open>effective_tm\<close> returns the absent value when no base
  training max is supplied, whatever \<open>tm_inc\<close> holds, and also when the supplied one is
  0. For a supplied training max \<open>t\<close> other than 0 and a numeric \<open>tm_inc\<close> it returns
  \<open>t + tm_inc\<close>. A missing training max is never read as zero.
\<close>

theorem effective_tm_cases:
  "effective_tm str_float self None = Inr None
   \<and> effective_tm str_float self (Some 0) = Inr None
   \<and> (as_num (tm_inc self) = Some inc \<and> t \<noteq> 0 \<longrightarrow>
        effective_tm str_float self (Some t) = Inr (Some (t + inc)))"
  by (cases "tm_inc self") (simp_all add: effective_tm_def)

theorem effective_tm_cases_witness:
  "effective_tm Map.empty \<lparr>MesoCycle.name = PStr ''m1'', micros = [], tm_inc = PInt 5\<rparr>
     (Some 100) = Inr (Some 105)"
  using effective_tm_cases
    [of Map.empty "\<lparr>MesoCycle.name = PStr ''m1'', micros = [], tm_inc = PInt 5\<rparr>" 5 100]
  by simp

text \<open>
  The claim as written fails at a training max of 0: with \<open>tm_inc = 5\<close> the result is
  the absent value, not \<open>0 + 5\<close>.
\<close>

theorem effective_tm_zero_counterexample:
  "effective_tm Map.empty \<lparr>MesoCycle.name = PStr ''m1'', micros = [], tm_inc = PInt 5\<rparr>
     (Some 0) = Inr None"
  by (simp add: effective_tm_def)





text \<open>
  Claim C8. A training max of exactly 0 goes the way of an absent one:
  \<open>calculate_weight\<close> returns \<open>percent\<close> for every working set and rounding unit, and
  \<open>effective_tm\<close> returns the absent value for every mesocycle and increment.
\<close>

theorem zero_tm_is_absent:
  "calculate_weight self (Some 0) rounding = Inr (percent self)
   \<and> effective_tm str_float meso (Some 0) = Inr None"
  by (simp add: calculate_weight_def effective_tm_def)

section \<open>Properties of generation\<close>

subsection \<open>Repeat expansion\<close>

lemma collect_append:
  "collect f (xs @ ys) =
     (case collect f xs of
        Inl e \<Rightarrow> Inl e
      | Inr a \<Rightarrow> (case collect f ys of Inl e \<Rightarrow> Inl e | Inr b \<Rightarrow> Inr (a @ b)))"
  by (induction xs) (auto split: sum.splits)

lemma generate_workingsets_append:
  assumes "generate_workingsets (PList xs) = Inr a"
    and "generate_workingsets (PList ys) = Inr b"
  shows "generate_workingsets (PList (xs @ ys)) = Inr (a @ b)"
  using assms
  by (auto simp: generate_workingsets_def collect_append split: if_splits sum.splits)

lemma workingset_entries_present:
  assumes "map_of kvs (PStr ''percent'') = Some p" and "map_of kvs (PStr ''reps'') = Some r"
  shows "workingset_entries (PDict kvs) =
     (case py_range (py_get kvs ''sets'' (PInt 1)) of
        Inl e \<Rightarrow> Inl e
      | Inr n \<Rightarrow> Inr (replicate n
          \<lparr>percent = p, reps = r, amrap = py_get kvs ''amrap'' (PBool False)\<rparr>))"
  using assms by (simp add: py_getitem_def)

lemma generate_workingsets_single:
  assumes "str_keys kvs" and "workingset_entries (PDict kvs) = Inr ws"
  shows "generate_workingsets (PList [PDict kvs]) = Inr ws"
  using assms by (simp add: generate_workingsets_def)

lemma workingset_entries_count:
  assumes "map_of kvs (PStr ''percent'') = Some p" and "map_of kvs (PStr ''reps'') = Some r"
    and "py_range (py_get kvs ''sets'' (PInt 1)) = Inr n"
  shows "workingset_entries (PDict kvs) =
     Inr (replicate n \<lparr>percent = p, reps = r,
            amrap = (case map_of kvs (PStr ''amrap'') of None \<Rightarrow> PBool False | Some a \<Rightarrow> a)\<rparr>)"
proof -
  have "py_get kvs ''amrap'' (PBool False) =
      (case map_of kvs (PStr ''amrap'') of None \<Rightarrow> PBool False | Some a \<Rightarrow> a)"
    by (simp add: py_get_def)
  with assms(3) show ?thesis
    by (simp only: workingset_entries_present [OF assms(1,2)] sum.case)
qed

lemma generate_workingsets_around:
  assumes "str_keys kvs" and "workingset_entries (PDict kvs) = Inr ws"
    and "generate_workingsets (PList pre) = Inr xs"
    and "generate_workingsets (PList post) = Inr zs"
  shows "generate_workingsets (PList (pre @ [PDict kvs] @ post)) = Inr (xs @ ws @ zs)"
proof -
  from assms(1,2) have "generate_workingsets (PList [PDict kvs]) = Inr ws"
    by (rule generate_workingsets_single)
  then have "generate_workingsets (PList ([PDict kvs] @ post)) = Inr (ws @ zs)"
    using assms(4) by (rule generate_workingsets_append)
  with assms(3) show ?thesis
    by (rule generate_workingsets_append)
qed

text \<open>
  Claim C3. A raw set entry with \<open>percent\<close> and \<open>reps\<close> and a repeat count \<open>n\<close> (the
  value under \<open>sets\<close>, or 1 when the key is absent) puts exactly \<open>n\<close> copies of one
  working set between what the entries before it and the entries after it yield; the
  working set holds the entry's \<open>percent\<close> and \<open>reps\<close>, and \<open>amrap\<close> is false when the
  key is absent. With \<open>n = 0\<close> nothing is put there.
\<close>

theorem generate_workingsets_repeats:
  assumes "str_keys kvs"
    and "map_of kvs (PStr ''percent'') = Some p"
    and "map_of kvs (PStr ''reps'') = Some r"
    and "map_of kvs (PStr ''sets'') = None \<and> n = 1
         \<or> map_of kvs (PStr ''sets'') = Some (PInt (int n))"
    and "generate_workingsets (PList pre) = Inr xs"
    and "generate_workingsets (PList post) = Inr zs"
  shows "generate_workingsets (PList (pre @ [PDict kvs] @ post)) =
     Inr (xs
          @ replicate n \<lparr>percent = p, reps = r,
              amrap = (case map_of kvs (PStr ''amrap'') of None \<Rightarrow> PBool False | Some a \<Rightarrow> a)\<rparr>
          @ zs)"
proof -
  have "py_range (py_get kvs ''sets'' (PInt 1)) = Inr n"
    using assms(4) by (auto simp: py_get_def)
  with assms(2,3) have "workingset_entries (PDict kvs) =
     Inr (replicate n \<lparr>percent = p, reps = r,
            amrap = (case map_of kvs (PStr ''amrap'') of None \<Rightarrow> PBool False | Some a \<Rightarrow> a)\<rparr>)"
    by (rule workingset_entries_count)
  with assms(1) show ?thesis
    using assms(5,6) by (rule generate_workingsets_around)
qed

theorem generate_workingsets_repeats_witness:
  "generate_workingsets (PList
      ([PDict [(PStr ''percent'', PFloat (1 / 2)), (PStr ''reps'', PInt 10)]]
       @ [PDict [(PStr ''percent'', PFloat (7 / 10)), (PStr ''reps'', PInt 5), (PStr ''sets'', PInt 3)]]
       @ [])) =
   Inr ([\<lparr>percent = PFloat (1 / 2), reps = PInt 10, amrap = PBool False\<rparr>]
        @ replicate 3 \<lparr>percent = PFloat (7 / 10), reps = PInt 5, amrap = PBool False\<rparr>
        @ [])"
  using generate_workingsets_repeats
    [of "[(PStr ''percent'', PFloat (7 / 10)), (PStr ''reps'', PInt 5), (PStr ''sets'', PInt 3)]"
        "PFloat (7 / 10)" "PInt 5" 3
        "[PDict [(PStr ''percent'', PFloat (1 / 2)), (PStr ''reps'', PInt 10)]]"
        "[\<lparr>percent = PFloat (1 / 2), reps = PInt 10, amrap = PBool False\<rparr>]"
        "[]" "[]"]
  by (simp add: generate_workingsets_def py_getitem_def py_get_def str_keys_def)

subsection \<open>What generation returns on a shaped description\<close>

lemma is_int_iff: "is_int v \<longleftrightarrow> (\<exists>i. v = PInt i)"
  by (cases v) simp_all

lemma seq_of_iff: "seq_of P v \<longleftrightarrow> (\<exists>xs. v = PList xs \<and> list_all P xs)"
  by (cases v) simp_all

lemma expected_sets_concat:
  "expected_sets (concat xss) = sum_list (map expected_sets xss)"
  by (induction xss) (simp_all add: expected_sets_def)

lemma collect_dichotomy:
  assumes "\<forall>x\<in>set xs. if bad x then \<exists>k\<in>K. f x = Inl (KeyError k)
                        else \<exists>y. f x = Inr y \<and> g y = h x"
  shows "if list_ex bad xs then \<exists>k\<in>K. collect f xs = Inl (KeyError k)
         else \<exists>ys. collect f xs = Inr ys \<and> map g ys = map h xs"
  using assms
proof (induction xs)
  case Nil
  then show ?case by simp
next
  case (Cons x xs)
  show ?case
  proof (cases "bad x")
    case True
    with Cons.prems show ?thesis by auto
  next
    case False
    with Cons.prems obtain y where y: "f x = Inr y" "g y = h x" by auto
    from Cons.prems have "\<forall>x\<in>set xs. if bad x then \<exists>k\<in>K. f x = Inl (KeyError k)
                        else \<exists>y. f x = Inr y \<and> g y = h x" by simp
    from Cons.IH [OF this] show ?thesis
      using False y by (auto split: if_splits)
  qed
qed

lemma shape_raw_set_str_map: "shape_raw_set required e \<Longrightarrow> str_map e"
  by (cases e) simp_all

lemma raw_set_outcome:
  assumes "shape_raw_set False e"
  shows "if missing_in_raw_set e
         then \<exists>k\<in>set required_fields. workingset_entries e = Inl (KeyError k)
         else \<exists>ws. workingset_entries e = Inr ws \<and> length ws = nat (repeat_count e)"
proof (cases e)
  case (PDict kvs)
  with assms have s: "field_ok False is_int kvs ''sets''" by simp
  show ?thesis
    using s unfolding PDict
    by (auto simp: field_ok_def lacks_def py_getitem_def py_get_def required_fields_def
          is_int_iff split: option.splits)
qed (use assms in simp_all)

lemma raw_sets_outcome:
  assumes "seq_of (shape_raw_set False) v"
  shows "if list_ex missing_in_raw_set (elements v)
         then \<exists>k\<in>set required_fields. generate_workingsets v = Inl (KeyError k)
         else \<exists>ws. generate_workingsets v = Inr ws \<and> length ws = expected_sets (elements v)"
proof -
  from assms obtain es where v: "v = PList es" and es: "list_all (shape_raw_set False) es"
    by (auto simp: seq_of_iff)
  from es have pd: "program_data v"
    unfolding v by (auto simp: list_all_iff intro: shape_raw_set_str_map)
  have "\<forall>e\<in>set es. if missing_in_raw_set e
         then \<exists>k\<in>set required_fields. workingset_entries e = Inl (KeyError k)
         else \<exists>ws. workingset_entries e = Inr ws \<and> length ws = nat (repeat_count e)"
  proof (rule ballI)
    fix e assume "e \<in> set es"
    with es have "shape_raw_set False e" by (simp add: list_all_iff)
    then show "if missing_in_raw_set e
         then \<exists>k\<in>set required_fields. workingset_entries e = Inl (KeyError k)
         else \<exists>ws. workingset_entries e = Inr ws \<and> length ws = nat (repeat_count e)"
      by (rule raw_set_outcome)
  qed
  from collect_dichotomy [OF this] show ?thesis
    using pd unfolding v
    by (auto simp: generate_workingsets_def expected_sets_def length_concat split: if_splits)
qed


lemma sequence_outcome:
  assumes sv: "seq_of S v"
    and str: "\<And>x. S x \<Longrightarrow> str_map x"
    and elem: "\<And>x. S x \<Longrightarrow>
        if M x then \<exists>k\<in>K. gen x = Inl (KeyError k)
        else \<exists>y. gen x = Inr y \<and> cnt y = expected_sets (raws x)"
  shows "program_data v \<and>
        (if list_ex M (elements v) then \<exists>k\<in>K. collect gen (elements v) = Inl (KeyError k)
         else \<exists>ys. collect gen (elements v) = Inr ys
                \<and> sum_list (map cnt ys) = expected_sets (concat (map raws (elements v))))"
proof -
  from sv obtain xs where v: "v = PList xs" and xs: "list_all S xs"
    by (auto simp: seq_of_iff)
  from xs have pd: "program_data v"
    unfolding v by (auto simp: list_all_iff intro: str)
  have "\<forall>x\<in>set xs. if M x then \<exists>k\<in>K. gen x = Inl (KeyError k)
        else \<exists>y. gen x = Inr y \<and> cnt y = expected_sets (raws x)"
  proof (rule ballI)
    fix x assume "x \<in> set xs"
    with xs have "S x" by (simp add: list_all_iff)
    then show "if M x then \<exists>k\<in>K. gen x = Inl (KeyError k)
        else \<exists>y. gen x = Inr y \<and> cnt y = expected_sets (raws x)"
      by (rule elem)
  qed
  from collect_dichotomy [OF this] have
    "if list_ex M xs then \<exists>k\<in>K. collect gen xs = Inl (KeyError k)
     else \<exists>ys. collect gen xs = Inr ys \<and> map cnt ys = map (\<lambda>x. expected_sets (raws x)) xs" .
  then have "if list_ex M xs then \<exists>k\<in>K. collect gen xs = Inl (KeyError k)
     else \<exists>ys. collect gen xs = Inr ys
            \<and> sum_list (map cnt ys) = expected_sets (concat (map raws xs))"
    by (auto simp: expected_sets_concat comp_def split: if_splits)
  with pd show ?thesis unfolding v by simp
qed

lemma container_outcome:
  assumes child: "\<And>v. map_of kvs (PStr f) = Some v \<Longrightarrow>
        if list_ex M (elements v) then \<exists>k\<in>K. child v = Inl (KeyError k)
        else \<exists>ys. child v = Inr ys \<and> cnt ys = expected_sets (R v)"
    and f: "f \<in> K" and n: "''name'' \<in> K"
  shows "if lacks kvs ''name'' \<or> missing_below M kvs f
         then \<exists>k\<in>K.
           (case py_getitem kvs f of
              Inl e \<Rightarrow> Inl e
            | Inr raw \<Rightarrow>
                (case child raw of
                   Inl e \<Rightarrow> Inl e
                 | Inr ys \<Rightarrow>
                     (case py_getitem kvs ''name'' of
                        Inl e \<Rightarrow> Inl e
                      | Inr n \<Rightarrow> Inr (mk n ys)))) = Inl (KeyError k)
         else \<exists>n ys v.
           (case py_getitem kvs f of
              Inl e \<Rightarrow> Inl e
            | Inr raw \<Rightarrow>
                (case child raw of
                   Inl e \<Rightarrow> Inl e
                 | Inr ys \<Rightarrow>
                     (case py_getitem kvs ''name'' of
                        Inl e \<Rightarrow> Inl e
                      | Inr n \<Rightarrow> Inr (mk n ys)))) = Inr (mk n ys)
           \<and> map_of kvs (PStr f) = Some v \<and> cnt ys = expected_sets (R v)"
proof (cases "map_of kvs (PStr f)")
  case None
  then show ?thesis
    using f by (auto simp: missing_below_def py_getitem_def)
next
  case (Some v)
  note c = child [OF Some]
  show ?thesis
  proof (cases "list_ex M (elements v)")
    case True
    with c Some show ?thesis
      by (auto simp: missing_below_def py_getitem_def)
  next
    case False
    with c obtain ys where ys: "child v = Inr ys" "cnt ys = expected_sets (R v)"
      by auto
    show ?thesis
      using False Some ys n
      by (cases "map_of kvs (PStr ''name'')")
        (auto simp: missing_below_def py_getitem_def lacks_def)
  qed
qed

lemma shape_session_str_map: "shape_session required s \<Longrightarrow> str_map s"
  by (cases s) simp_all

lemma shape_micro_str_map: "shape_micro required s \<Longrightarrow> str_map s"
  by (cases s) simp_all

lemma shape_meso_str_map: "shape_meso required s \<Longrightarrow> str_map s"
  by (cases s) simp_all

lemma field_ok_present:
  "field_ok required P kvs k \<Longrightarrow> map_of kvs (PStr k) = Some v \<Longrightarrow> P v"
  by (simp add: field_ok_def)

lemma required_fields_mem:
  "''name'' \<in> set required_fields" "''mesos'' \<in> set required_fields"
  "''micros'' \<in> set required_fields" "''sessions'' \<in> set required_fields"
  "''sets'' \<in> set required_fields"
  by (simp_all add: required_fields_def)

lemma session_outcome:
  assumes "shape_session False s"
  shows "if missing_in_session s
         then \<exists>k\<in>set required_fields. generate_session s = Inl (KeyError k)
         else \<exists>y. generate_session s = Inr y
                \<and> count_session y = expected_sets (session_raw_sets s)"
proof (cases s)
  case (PDict kvs)
  with assms have fo: "field_ok False (seq_of (shape_raw_set False)) kvs ''sets''" by simp
  have "if lacks kvs ''name'' \<or> missing_below missing_in_raw_set kvs ''sets''
         then \<exists>k\<in>set required_fields. generate_session (PDict kvs) = Inl (KeyError k)
         else \<exists>n ys v. generate_session (PDict kvs) = Inr \<lparr>Session.name = n, sets = ys\<rparr>
           \<and> map_of kvs (PStr ''sets'') = Some v \<and> length ys = expected_sets (elements v)"
    unfolding generate_session.simps
  proof (rule container_outcome
      [where child = generate_workingsets and f = "''sets''" and M = missing_in_raw_set
        and K = "set required_fields" and cnt = length and R = elements and kvs = kvs
        and mk = "\<lambda>n ys. \<lparr>Session.name = n, sets = ys\<rparr>"])
    fix v assume "map_of kvs (PStr ''sets'') = Some v"
    with fo have "seq_of (shape_raw_set False) v" by (rule field_ok_present)
    then show "if list_ex missing_in_raw_set (elements v)
        then \<exists>k\<in>set required_fields. generate_workingsets v = Inl (KeyError k)
        else \<exists>ys. generate_workingsets v = Inr ys \<and> length ys = expected_sets (elements v)"
      by (rule raw_sets_outcome)
  qed (simp_all add: required_fields_mem)
  then show ?thesis
    unfolding PDict
    by (auto simp: count_session_def session_raw_sets_def field_items_def split: if_splits)
qed (use assms in simp_all)


lemma sessions_outcome:
  assumes "seq_of (shape_session False) v"
  shows "if list_ex missing_in_session (elements v)
         then \<exists>k\<in>set required_fields. generate_sessions v = Inl (KeyError k)
         else \<exists>ys. generate_sessions v = Inr ys
                \<and> sum_list (map count_session ys)
                    = expected_sets (concat (map session_raw_sets (elements v)))"
  using sequence_outcome
    [where S = "shape_session False" and M = missing_in_session and gen = generate_session
      and K = "set required_fields" and cnt = count_session and raws = session_raw_sets,
      OF assms shape_session_str_map session_outcome]
  by (simp add: generate_sessions_def)

lemma micro_outcome:
  assumes "shape_micro False u"
  shows "if missing_in_micro u
         then \<exists>k\<in>set required_fields. generate_micro u = Inl (KeyError k)
         else \<exists>y. generate_micro u = Inr y
                \<and> count_micro y = expected_sets (micro_raw_sets u)"
proof (cases u)
  case (PDict kvs)
  with assms have fo: "field_ok False (seq_of (shape_session False)) kvs ''sessions''" by simp
  have "if lacks kvs ''name'' \<or> missing_below missing_in_session kvs ''sessions''
         then \<exists>k\<in>set required_fields. generate_micro (PDict kvs) = Inl (KeyError k)
         else \<exists>n ys v. generate_micro (PDict kvs) = Inr \<lparr>MicroCycle.name = n, sessions = ys\<rparr>
           \<and> map_of kvs (PStr ''sessions'') = Some v
           \<and> sum_list (map count_session ys)
               = expected_sets (concat (map session_raw_sets (elements v)))"
    unfolding generate_micro.simps
  proof (rule container_outcome
      [where child = generate_sessions and f = "''sessions''" and M = missing_in_session
        and K = "set required_fields" and cnt = "\<lambda>ys. sum_list (map count_session ys)"
        and R = "\<lambda>v. concat (map session_raw_sets (elements v))" and kvs = kvs
        and mk = "\<lambda>n ys. \<lparr>MicroCycle.name = n, sessions = ys\<rparr>"])
    fix v assume "map_of kvs (PStr ''sessions'') = Some v"
    with fo have "seq_of (shape_session False) v" by (rule field_ok_present)
    then show "if list_ex missing_in_session (elements v)
        then \<exists>k\<in>set required_fields. generate_sessions v = Inl (KeyError k)
        else \<exists>ys. generate_sessions v = Inr ys
               \<and> sum_list (map count_session ys)
                   = expected_sets (concat (map session_raw_sets (elements v)))"
      by (rule sessions_outcome)
  qed (simp_all add: required_fields_mem)
  then show ?thesis
    unfolding PDict
    by (auto simp: count_micro_def micro_raw_sets_def field_items_def split: if_splits)
qed (use assms in simp_all)

lemma micros_outcome:
  assumes "seq_of (shape_micro False) v"
  shows "if list_ex missing_in_micro (elements v)
         then \<exists>k\<in>set required_fields. generate_micros v = Inl (KeyError k)
         else \<exists>ys. generate_micros v = Inr ys
                \<and> sum_list (map count_micro ys)
                    = expected_sets (concat (map micro_raw_sets (elements v)))"
  using sequence_outcome
    [where S = "shape_micro False" and M = missing_in_micro and gen = generate_micro
      and K = "set required_fields" and cnt = count_micro and raws = micro_raw_sets,
      OF assms shape_micro_str_map micro_outcome]
  by (simp add: generate_micros_def)

lemma meso_outcome:
  assumes "shape_meso False m"
  shows "if missing_in_meso m
         then \<exists>k\<in>set required_fields. generate_meso m = Inl (KeyError k)
         else \<exists>y. generate_meso m = Inr y
                \<and> count_meso y = expected_sets (meso_raw_sets m)"
proof (cases m)
  case (PDict kvs)
  with assms have fo: "field_ok False (seq_of (shape_micro False)) kvs ''micros''" by simp
  have "if lacks kvs ''name'' \<or> missing_below missing_in_micro kvs ''micros''
         then \<exists>k\<in>set required_fields. generate_meso (PDict kvs) = Inl (KeyError k)
         else \<exists>n ys v. generate_meso (PDict kvs)
               = Inr \<lparr>MesoCycle.name = n, micros = ys, tm_inc = py_get kvs ''tm_inc'' (PInt 0)\<rparr>
           \<and> map_of kvs (PStr ''micros'') = Some v
           \<and> sum_list (map count_micro ys)
               = expected_sets (concat (map micro_raw_sets (elements v)))"
    unfolding generate_meso.simps Let_def
  proof (rule container_outcome
      [where child = generate_micros and f = "''micros''" and M = missing_in_micro
        and K = "set required_fields" and cnt = "\<lambda>ys. sum_list (map count_micro ys)"
        and R = "\<lambda>v. concat (map micro_raw_sets (elements v))" and kvs = kvs
        and mk = "\<lambda>n ys. \<lparr>MesoCycle.name = n, micros = ys,
                     tm_inc = py_get kvs ''tm_inc'' (PInt 0)\<rparr>"])
    fix v assume "map_of kvs (PStr ''micros'') = Some v"
    with fo have "seq_of (shape_micro False) v" by (rule field_ok_present)
    then show "if list_ex missing_in_micro (elements v)
        then \<exists>k\<in>set required_fields. generate_micros v = Inl (KeyError k)
        else \<exists>ys. generate_micros v = Inr ys
               \<and> sum_list (map count_micro ys)
                   = expected_sets (concat (map micro_raw_sets (elements v)))"
      by (rule micros_outcome)
  qed (simp_all add: required_fields_mem)
  then show ?thesis
    unfolding PDict
    by (auto simp: count_meso_def meso_raw_sets_def field_items_def split: if_splits)
qed (use assms in simp_all)

lemma mesos_outcome:
  assumes "shape_mesos False v"
  shows "if list_ex missing_in_meso (elements v)
         then \<exists>k\<in>set required_fields. generate_mesos v = Inl (KeyError k)
         else \<exists>ys. generate_mesos v = Inr ys
                \<and> sum_list (map count_meso ys)
                    = expected_sets (concat (map meso_raw_sets (elements v)))"
  using sequence_outcome
    [where S = "shape_meso False" and M = missing_in_meso and gen = generate_meso
      and K = "set required_fields" and cnt = count_meso and raws = meso_raw_sets,
      OF assms [unfolded shape_mesos_def] shape_meso_str_map meso_outcome]
  by (simp add: generate_mesos_def)

lemma program_outcome:
  assumes "shape_program False d"
  shows "if missing_in_program d
         then \<exists>k\<in>set required_fields. load_program d = Inl (KeyError k)
         else \<exists>p. load_program d = Inr p
                \<and> count_program p = expected_sets (program_raw_sets d)"
proof (cases d)
  case (PDict kvs)
  with assms have fo: "field_ok False (shape_mesos False) kvs ''mesos''"
    and ck: "check_program (PDict kvs)" by simp_all
  have "if lacks kvs ''name'' \<or> missing_below missing_in_meso kvs ''mesos''
         then \<exists>k\<in>set required_fields. load_program (PDict kvs) = Inl (KeyError k)
         else \<exists>n ys v. load_program (PDict kvs) = Inr \<lparr>Program.name = n, mesos = ys\<rparr>
           \<and> map_of kvs (PStr ''mesos'') = Some v
           \<and> sum_list (map count_meso ys)
               = expected_sets (concat (map meso_raw_sets (elements v)))"
    unfolding load_program.simps if_P [OF ck]
  proof (rule container_outcome
      [where child = generate_mesos and f = "''mesos''" and M = missing_in_meso
        and K = "set required_fields" and cnt = "\<lambda>ys. sum_list (map count_meso ys)"
        and R = "\<lambda>v. concat (map meso_raw_sets (elements v))" and kvs = kvs
        and mk = "\<lambda>n ys. \<lparr>Program.name = n, mesos = ys\<rparr>"])
    fix v assume "map_of kvs (PStr ''mesos'') = Some v"
    with fo have "shape_mesos False v" by (rule field_ok_present)
    then show "if list_ex missing_in_meso (elements v)
        then \<exists>k\<in>set required_fields. generate_mesos v = Inl (KeyError k)
        else \<exists>ys. generate_mesos v = Inr ys
               \<and> sum_list (map count_meso ys)
                   = expected_sets (concat (map meso_raw_sets (elements v)))"
      by (rule mesos_outcome)
  qed (simp_all add: required_fields_mem)
  then show ?thesis
    unfolding PDict
    by (auto simp: count_program_def program_raw_sets_def field_items_def split: if_splits)
qed (use assms in simp_all)

lemma seq_of_weaken:
  assumes "seq_of P v" and "\<And>x. P x \<Longrightarrow> Q x \<and> \<not> M x"
  shows "seq_of Q v \<and> \<not> list_ex M (elements v)"
  using assms by (auto simp: seq_of_iff list_all_iff list_ex_iff)

lemma field_ok_weaken:
  assumes "field_ok True P kvs k" and "\<And>v. P v \<Longrightarrow> Q v"
  shows "field_ok False Q kvs k \<and> \<not> lacks kvs k"
  using assms by (auto simp: field_ok_def lacks_def split: option.splits)

lemma field_ok_seq_weaken:
  assumes "field_ok True (seq_of P) kvs k" and "\<And>x. P x \<Longrightarrow> Q x \<and> \<not> M x"
  shows "field_ok False (seq_of Q) kvs k \<and> \<not> missing_below M kvs k"
proof (cases "map_of kvs (PStr k)")
  case None
  with assms(1) show ?thesis by (simp add: field_ok_def)
next
  case (Some v)
  with assms(1) have "seq_of P v" by (simp add: field_ok_def)
  from seq_of_weaken [OF this assms(2)] Some show ?thesis
    by (simp add: field_ok_def missing_below_def)
qed

lemma well_formed_raw_set:
  assumes "shape_raw_set True e"
  shows "shape_raw_set False e \<and> \<not> missing_in_raw_set e"
proof (cases e)
  case (PDict kvs)
  with assms have p: "field_ok True is_number kvs ''percent''"
    and r: "field_ok True is_int kvs ''reps''"
    and rest: "str_keys kvs" "field_ok False is_bool kvs ''amrap''"
      "field_ok False is_int kvs ''sets''"
    by simp_all
  from field_ok_weaken [OF p] field_ok_weaken [OF r] rest show ?thesis
    unfolding PDict by simp
qed (use assms in simp_all)

lemma well_formed_session:
  assumes "shape_session True s"
  shows "shape_session False s \<and> \<not> missing_in_session s"
proof (cases s)
  case (PDict kvs)
  with assms have n: "field_ok True is_str kvs ''name''"
    and c: "field_ok True (seq_of (shape_raw_set True)) kvs ''sets''"
    and rest: "str_keys kvs"
    by simp_all
  from field_ok_weaken [OF n] field_ok_seq_weaken [OF c well_formed_raw_set] rest
  show ?thesis unfolding PDict by simp
qed (use assms in simp_all)

lemma well_formed_micro:
  assumes "shape_micro True u"
  shows "shape_micro False u \<and> \<not> missing_in_micro u"
proof (cases u)
  case (PDict kvs)
  with assms have n: "field_ok True is_str kvs ''name''"
    and c: "field_ok True (seq_of (shape_session True)) kvs ''sessions''"
    and rest: "str_keys kvs"
    by simp_all
  from field_ok_weaken [OF n] field_ok_seq_weaken [OF c well_formed_session] rest
  show ?thesis unfolding PDict by simp
qed (use assms in simp_all)

lemma well_formed_meso:
  assumes "shape_meso True m"
  shows "shape_meso False m \<and> \<not> missing_in_meso m"
proof (cases m)
  case (PDict kvs)
  with assms have n: "field_ok True is_str kvs ''name''"
    and c: "field_ok True (seq_of (shape_micro True)) kvs ''micros''"
    and rest: "str_keys kvs" "field_ok False is_number kvs ''tm_inc''"
    by simp_all
  from field_ok_weaken [OF n] field_ok_seq_weaken [OF c well_formed_micro] rest
  show ?thesis unfolding PDict by simp
qed (use assms in simp_all)

lemma well_formed_program:
  assumes "shape_program True d"
  shows "shape_program False d \<and> \<not> missing_in_program d"
proof (cases d)
  case (PDict kvs)
  with assms have n: "field_ok True is_str kvs ''name''"
    and c: "field_ok True (seq_of (shape_meso True)) kvs ''mesos''"
    and rest: "str_keys kvs" "list_all (\<lambda>kv. is_str (snd kv) \<or> program_data (snd kv)) kvs"
    by (simp_all add: shape_mesos_def [abs_def])
  from field_ok_weaken [OF n] field_ok_seq_weaken [OF c well_formed_meso] rest
  show ?thesis unfolding PDict by (simp add: shape_mesos_def [abs_def])
qed (use assms in simp_all)

lemma well_formed_loads:
  assumes "shape_program True d"
  shows "\<exists>p. load_program d = Inr p \<and> count_program p = expected_sets (program_raw_sets d)"
  using program_outcome [of d] well_formed_program [OF assms] by simp




subsection \<open>A missing required field\<close>
















text \<open>
  Claim C9. A raw set entry whose \<open>sets\<close> is a negative integer raises nothing and
  yields nothing, alone or between other entries, as a repeat count of 0 does; and a
  well-formed description loads whatever the signs of its repeat counts, a negative
  one adding no working set.
\<close>

theorem negative_repeat_emits_nothing:
  "(str_keys kvs \<and> map_of kvs (PStr ''percent'') = Some p
      \<and> map_of kvs (PStr ''reps'') = Some r
      \<and> map_of kvs (PStr ''sets'') = Some (PInt n) \<and> n < 0
      \<and> generate_workingsets (PList pre) = Inr xs
      \<and> generate_workingsets (PList post) = Inr zs \<longrightarrow>
        generate_workingsets (PList [PDict kvs]) = Inr []
      \<and> generate_workingsets (PList (pre @ [PDict kvs] @ post)) = Inr (xs @ zs))
   \<and> (shape_program True d \<longrightarrow>
        (\<exists>prog. load_program d = Inr prog
           \<and> count_program prog
               = sum_list (map (\<lambda>e. nat (repeat_count e)) (program_raw_sets d))))"
proof (intro conjI impI)
  assume h: "str_keys kvs \<and> map_of kvs (PStr ''percent'') = Some p
      \<and> map_of kvs (PStr ''reps'') = Some r
      \<and> map_of kvs (PStr ''sets'') = Some (PInt n) \<and> n < 0
      \<and> generate_workingsets (PList pre) = Inr xs
      \<and> generate_workingsets (PList post) = Inr zs"
  then have "py_range (py_get kvs ''sets'' (PInt 1)) = Inr 0"
    by (simp add: py_get_def)
  with h have w: "workingset_entries (PDict kvs) = Inr []"
    using workingset_entries_count [of kvs p r 0] by simp
  with h show "generate_workingsets (PList [PDict kvs]) = Inr []"
    by (simp add: generate_workingsets_single)
  from h w show "generate_workingsets (PList (pre @ [PDict kvs] @ post)) = Inr (xs @ zs)"
    using generate_workingsets_around [of kvs "[]" pre xs post zs] by simp
next
  assume "shape_program True d"
  then show "\<exists>prog. load_program d = Inr prog
           \<and> count_program prog
               = sum_list (map (\<lambda>e. nat (repeat_count e)) (program_raw_sets d))"
    using well_formed_loads [of d] by (simp add: expected_sets_def)
qed

theorem negative_repeat_emits_nothing_witness:
  "generate_workingsets (PList
      ([] @ [PDict [(PStr ''percent'', PFloat (1 / 2)), (PStr ''reps'', PInt 10),
                    (PStr ''sets'', PInt (- 3))]]
          @ [PDict [(PStr ''percent'', PFloat (7 / 10)), (PStr ''reps'', PInt 5)]]))
     = Inr [\<lparr>percent = PFloat (7 / 10), reps = PInt 5, amrap = PBool False\<rparr>]
   \<and> (\<exists>prog. load_program negative_repeat_program = Inr prog \<and> count_program prog = 1)"
proof -
  have 1: "shape_program True negative_repeat_program" by code_simp
  have 2: "sum_list (map (\<lambda>e. nat (repeat_count e)) (program_raw_sets negative_repeat_program)) = 1"
    by code_simp
  have 3: "generate_workingsets
      (PList [PDict [(PStr ''percent'', PFloat (7 / 10)), (PStr ''reps'', PInt 5)]])
     = Inr [\<lparr>percent = PFloat (7 / 10), reps = PInt 5, amrap = PBool False\<rparr>]"
    by (simp add: generate_workingsets_def py_getitem_def py_get_def str_keys_def)
  have 4: "generate_workingsets (PList []) = Inr []"
    by (simp add: generate_workingsets_def)
  from negative_repeat_emits_nothing
    [of "[(PStr ''percent'', PFloat (1 / 2)), (PStr ''reps'', PInt 10), (PStr ''sets'', PInt (- 3))]"
      "PFloat (1 / 2)" "PInt 10" "- 3" "[]" "[]"
      "[PDict [(PStr ''percent'', PFloat (7 / 10)), (PStr ''reps'', PInt 5)]]"
      "[\<lparr>percent = PFloat (7 / 10), reps = PInt 5, amrap = PBool False\<rparr>]"
      negative_repeat_program]
  show ?thesis
    using 1 2 3 4 by (simp add: str_keys_def)
qed

subsection \<open>Keys the program does not know\<close>

lemma documented_mem:
  "''name'' \<in> set documented_keys" "''mesos'' \<in> set documented_keys"
  "''micros'' \<in> set documented_keys" "''sessions'' \<in> set documented_keys"
  "''sets'' \<in> set documented_keys" "''percent'' \<in> set documented_keys"
  "''reps'' \<in> set documented_keys" "''amrap'' \<in> set documented_keys"
  "''tm_inc'' \<in> set documented_keys"
  by (simp_all add: documented_keys_def)

lemma map_of_strip_keys:
  "k \<in> set documented_keys \<Longrightarrow> map_of (strip_keys kvs) (PStr k) = map_of kvs (PStr k)"
  by (induction kvs) (auto simp: strip_keys_def)

lemma map_of_strip_field:
  "k' \<in> set documented_keys \<Longrightarrow>
     map_of (strip_field k f kvs) (PStr k') =
       (if k' = k then map_option (strip_seq f) (map_of kvs (PStr k))
        else map_of kvs (PStr k'))"
  by (induction kvs) (auto simp: strip_field_def strip_keys_def)

lemma str_keys_strip_keys: "str_keys kvs \<Longrightarrow> str_keys (strip_keys kvs)"
  by (simp add: str_keys_def strip_keys_def list_all_iff)

lemma str_keys_strip_field: "str_keys kvs \<Longrightarrow> str_keys (strip_field k f kvs)"
  by (auto simp: str_keys_def strip_field_def strip_keys_def list_all_iff)

lemma collect_map_cong:
  "\<forall>x\<in>set xs. f (g x) = f x \<Longrightarrow> collect f (map g xs) = collect f xs"
  by (induction xs) (simp_all split: sum.splits)

lemma py_getitem_strip_keys:
  "k \<in> set documented_keys \<Longrightarrow> py_getitem (strip_keys kvs) k = py_getitem kvs k"
  by (simp add: py_getitem_def map_of_strip_keys)

lemma py_get_strip_keys:
  "k \<in> set documented_keys \<Longrightarrow> py_get (strip_keys kvs) k dflt = py_get kvs k dflt"
  by (simp add: py_get_def map_of_strip_keys)

lemma strip_raw_set_entries: "workingset_entries (strip_raw_set e) = workingset_entries e"
  by (cases e)
    (simp_all add: py_getitem_strip_keys py_get_strip_keys documented_mem Let_def
      cong: sum.case_cong)

lemma strip_sequence:
  assumes sv: "seq_of S v"
    and el: "\<And>x. S x \<Longrightarrow> str_map x \<and> str_map (g x) \<and> gen (g x) = gen x"
  shows "(if program_data (strip_seq g v) then collect gen (elements (strip_seq g v))
          else Inl ContractNotRespected)
       = (if program_data v then collect gen (elements v) else Inl ContractNotRespected)"
proof -
  from sv obtain xs where v: "v = PList xs" and xs: "list_all S xs"
    by (auto simp: seq_of_iff)
  from xs el have 1: "list_all str_map xs" and 2: "list_all str_map (map g xs)"
    and 3: "\<forall>x\<in>set xs. gen (g x) = gen x"
    by (auto simp: list_all_iff)
  from 3 have "collect gen (map g xs) = collect gen xs" by (rule collect_map_cong)
  with 1 2 show ?thesis unfolding v by simp
qed

lemma strip_container:
  assumes fo: "field_ok True (seq_of S) kvs f"
    and ch: "\<And>v. seq_of S v \<Longrightarrow> child (strip_seq g v) = child v"
    and f: "f \<in> set documented_keys" "f \<noteq> ''name''"
  shows "(case py_getitem (strip_field f g kvs) f of
            Inl e \<Rightarrow> Inl e
          | Inr raw \<Rightarrow>
              (case child raw of
                 Inl e \<Rightarrow> Inl e
               | Inr ys \<Rightarrow>
                   (case py_getitem (strip_field f g kvs) ''name'' of
                      Inl e \<Rightarrow> Inl e
                    | Inr n \<Rightarrow> Inr (mk n ys))))
       = (case py_getitem kvs f of
            Inl e \<Rightarrow> Inl e
          | Inr raw \<Rightarrow>
              (case child raw of
                 Inl e \<Rightarrow> Inl e
               | Inr ys \<Rightarrow>
                   (case py_getitem kvs ''name'' of
                      Inl e \<Rightarrow> Inl e
                    | Inr n \<Rightarrow> Inr (mk n ys))))"
proof -
  from fo obtain v where v: "map_of kvs (PStr f) = Some v" and sv: "seq_of S v"
    by (auto simp: field_ok_def split: option.splits)
  have 1: "py_getitem (strip_field f g kvs) f = Inr (strip_seq g v)"
    by (simp add: py_getitem_def map_of_strip_field f v)
  have 2: "py_getitem kvs f = Inr v"
    by (simp add: py_getitem_def v)
  have 3: "py_getitem (strip_field f g kvs) ''name'' = py_getitem kvs ''name''"
    using f(2) by (simp add: py_getitem_def map_of_strip_field documented_mem)
  show ?thesis unfolding 1 2 3 by (simp add: ch [OF sv])
qed

lemma strip_raw_set_ok:
  "shape_raw_set True e \<Longrightarrow>
     str_map e \<and> str_map (strip_raw_set e)
     \<and> workingset_entries (strip_raw_set e) = workingset_entries e"
  using strip_raw_set_entries [of e] by (cases e) (simp_all add: str_keys_strip_keys)

lemma py_get_strip_field:
  "k' \<in> set documented_keys \<Longrightarrow> k' \<noteq> k \<Longrightarrow>
     py_get (strip_field k f kvs) k' dflt = py_get kvs k' dflt"
  by (simp add: py_get_def map_of_strip_field)

lemma generate_workingsets_alt:
  "generate_workingsets v =
     (case (if program_data v then collect workingset_entries (elements v)
            else Inl ContractNotRespected) of
        Inl e \<Rightarrow> Inl e
      | Inr yielded \<Rightarrow> Inr (concat yielded))"
  by (simp add: generate_workingsets_def)

lemma strip_workingsets:
  assumes "seq_of (shape_raw_set True) v"
  shows "generate_workingsets (strip_seq strip_raw_set v) = generate_workingsets v"
  unfolding generate_workingsets_alt
  using strip_sequence [of "shape_raw_set True" v strip_raw_set workingset_entries,
      OF assms strip_raw_set_ok]
  by simp

lemma strip_session_ok:
  assumes "shape_session True s"
  shows "str_map s \<and> str_map (strip_session s)
         \<and> generate_session (strip_session s) = generate_session s"
proof (cases s)
  case (PDict kvs)
  with assms have k: "str_keys kvs"
    and fo: "field_ok True (seq_of (shape_raw_set True)) kvs ''sets''" by simp_all
  have "generate_session (PDict (strip_field ''sets'' strip_raw_set kvs))
      = generate_session (PDict kvs)"
    unfolding generate_session.simps
    by (rule strip_container
        [where S = "shape_raw_set True" and child = generate_workingsets
          and g = strip_raw_set, OF fo strip_workingsets])
      (simp_all add: documented_mem)
  with k show ?thesis unfolding PDict by (simp add: str_keys_strip_field)
qed (use assms in simp_all)

lemma strip_sessions:
  assumes "seq_of (shape_session True) v"
  shows "generate_sessions (strip_seq strip_session v) = generate_sessions v"
  unfolding generate_sessions_def
  by (rule strip_sequence [OF assms strip_session_ok])

lemma strip_micro_ok:
  assumes "shape_micro True u"
  shows "str_map u \<and> str_map (strip_micro u)
         \<and> generate_micro (strip_micro u) = generate_micro u"
proof (cases u)
  case (PDict kvs)
  with assms have k: "str_keys kvs"
    and fo: "field_ok True (seq_of (shape_session True)) kvs ''sessions''" by simp_all
  have "generate_micro (PDict (strip_field ''sessions'' strip_session kvs))
      = generate_micro (PDict kvs)"
    unfolding generate_micro.simps
    by (rule strip_container
        [where S = "shape_session True" and child = generate_sessions
          and g = strip_session, OF fo strip_sessions])
      (simp_all add: documented_mem)
  with k show ?thesis unfolding PDict by (simp add: str_keys_strip_field)
qed (use assms in simp_all)

lemma strip_micros:
  assumes "seq_of (shape_micro True) v"
  shows "generate_micros (strip_seq strip_micro v) = generate_micros v"
  unfolding generate_micros_def
  by (rule strip_sequence [OF assms strip_micro_ok])

lemma strip_meso_ok:
  assumes "shape_meso True m"
  shows "str_map m \<and> str_map (strip_meso m)
         \<and> generate_meso (strip_meso m) = generate_meso m"
proof (cases m)
  case (PDict kvs)
  with assms have k: "str_keys kvs"
    and fo: "field_ok True (seq_of (shape_micro True)) kvs ''micros''" by simp_all
  have inc: "py_get (strip_field ''micros'' strip_micro kvs) ''tm_inc'' (PInt 0)
      = py_get kvs ''tm_inc'' (PInt 0)"
    by (simp add: py_get_strip_field documented_mem)
  have "generate_meso (PDict (strip_field ''micros'' strip_micro kvs))
      = generate_meso (PDict kvs)"
    unfolding generate_meso.simps Let_def inc
    by (rule strip_container
        [where S = "shape_micro True" and child = generate_micros
          and g = strip_micro, OF fo strip_micros])
      (simp_all add: documented_mem)
  with k show ?thesis unfolding PDict by (simp add: str_keys_strip_field)
qed (use assms in simp_all)

lemma strip_mesos_same:
  assumes "shape_mesos True raw"
  shows "generate_mesos (strip_mesos raw) = generate_mesos raw"
  unfolding generate_mesos_def strip_mesos_def
  by (rule strip_sequence [OF assms [unfolded shape_mesos_def] strip_meso_ok])

text \<open>
  Claim C10. Two well-formed mesocycle lists that are the same once every key other
  than \<open>name\<close>, \<open>mesos\<close>, \<open>micros\<close>, \<open>sessions\<close>, \<open>sets\<close>, \<open>percent\<close>, \<open>reps\<close>,
  \<open>amrap\<close> and \<open>tm_inc\<close> is taken out of their mesocycle, microcycle, session and
  raw set mappings give the same result of \<open>generate_mesos\<close>.
\<close>

theorem extra_keys_ignored:
  assumes "shape_mesos True d1" and "shape_mesos True d2"
    and "strip_mesos d1 = strip_mesos d2"
  shows "generate_mesos d1 = generate_mesos d2"
proof -
  have "generate_mesos d1 = generate_mesos (strip_mesos d1)"
    using assms(1) by (simp add: strip_mesos_same)
  also have "\<dots> = generate_mesos (strip_mesos d2)"
    using assms(3) by simp
  also have "\<dots> = generate_mesos d2"
    using assms(2) by (simp add: strip_mesos_same)
  finally show ?thesis .
qed

theorem extra_keys_ignored_witness:
  "generate_mesos annotated_mesos = generate_mesos plain_mesos
   \<and> annotated_mesos \<noteq> plain_mesos"
proof -
  have 1: "shape_mesos True annotated_mesos" by code_simp
  have 2: "shape_mesos True plain_mesos" by code_simp
  have 3: "strip_mesos annotated_mesos = strip_mesos plain_mesos" by code_simp
  have 4: "annotated_mesos \<noteq> plain_mesos" by code_simp
  from extra_keys_ignored [OF 1 2 3] 4 show ?thesis by simp
qed

end
